theory Spec2Isabelle
  imports Main "HOL-Library.Sublist"
begin

section \<open>Select AI pipeline: the SQL sanitizer and the executor\<close>

text \<open>
  The development embeds \<^verbatim>\<open>Pipeline.clean_sql\<close> and \<^verbatim>\<open>Pipeline.vision_execute\<close> of
  \<^verbatim>\<open>src/pipeline_selectai.py\<close>. A Python \<^verbatim>\<open>str\<close> is a list of code points; the model
  takes the code points below 256 (ASCII and Latin-1), one \<^typ>\<open>char\<close> each. Every pattern
  of the source is an ASCII pattern, and no code point below 256 outside ASCII folds onto
  an ASCII letter under \<^verbatim>\<open>re.IGNORECASE\<close>.
\<close>

subsection \<open>Characters\<close>

abbreviation nl :: char where "nl \<equiv> CHR 0x0A"
abbreviation dq :: char where "dq \<equiv> CHR 0x22"
abbreviation sq :: char where "sq \<equiv> CHR 0x27"

text \<open>\<^verbatim>\<open>str.isspace\<close>, which is also the class \<^verbatim>\<open>\s\<close> of a \<^verbatim>\<open>str\<close> pattern.\<close>

definition is_space :: "char \<Rightarrow> bool" where
  "is_space c = (let n = (of_char c :: int) in
     (9 \<le> n \<and> n \<le> 13) \<or> (28 \<le> n \<and> n \<le> 32) \<or> n = 133 \<or> n = 160)"

definition is_upper :: "char \<Rightarrow> bool" where
  "is_upper c = (let n = (of_char c :: int) in 65 \<le> n \<and> n \<le> 90)"

definition is_lower :: "char \<Rightarrow> bool" where
  "is_lower c = (let n = (of_char c :: int) in 97 \<le> n \<and> n \<le> 122)"

definition is_digit :: "char \<Rightarrow> bool" where
  "is_digit c = (let n = (of_char c :: int) in 48 \<le> n \<and> n \<le> 57)"

text \<open>
  The class \<^verbatim>\<open>\w\<close> of a \<^verbatim>\<open>str\<close> pattern: the alphanumeric code points and the
  underscore. Below 256 the alphanumerics outside ASCII are 0xAA, 0xB2, 0xB3, 0xB5,
  0xB9, 0xBA, 0xBC to 0xBE, and 0xC0 to 0xFF without 0xD7 and 0xF7.
\<close>

definition is_word :: "char \<Rightarrow> bool" where
  "is_word c = (let n = (of_char c :: int) in
     is_upper c \<or> is_lower c \<or> is_digit c \<or> c = CHR ''_'' \<or>
     n = 170 \<or> n = 178 \<or> n = 179 \<or> n = 181 \<or> n = 185 \<or> n = 186 \<or>
     (188 \<le> n \<and> n \<le> 190) \<or> (192 \<le> n \<and> n \<noteq> 215 \<and> n \<noteq> 247))"

text \<open>The class \<^verbatim>\<open>[A-Za-z0-9_\"\.]\<close> of the table and column patterns.\<close>

definition is_ident :: "char \<Rightarrow> bool" where
  "is_ident c = (is_upper c \<or> is_lower c \<or> is_digit c \<or> c = CHR ''_'' \<or> c = dq \<or> c = CHR ''.'')"

text \<open>\<^verbatim>\<open>str.upper\<close> on an ASCII character; the source applies it to identifier text only.\<close>

definition upper_char :: "char \<Rightarrow> char" where
  "upper_char c =
     (case map_of (zip ''abcdefghijklmnopqrstuvwxyz'' ''ABCDEFGHIJKLMNOPQRSTUVWXYZ'') c of
        None \<Rightarrow> c
      | Some u \<Rightarrow> u)"

text \<open>A pattern letter against a text character under \<^verbatim>\<open>re.IGNORECASE\<close>.\<close>

definition ci_eq :: "char \<Rightarrow> char \<Rightarrow> bool" where
  "ci_eq p c = (upper_char p = upper_char c)"

subsection \<open>String methods\<close>

definition lstrip :: "string \<Rightarrow> string" where
  "lstrip s = dropWhile is_space s"

definition rstrip :: "string \<Rightarrow> string" where
  "rstrip s = rev (dropWhile is_space (rev s))"

text \<open>\<^verbatim>\<open>s.strip()\<close>\<close>

definition strip :: "string \<Rightarrow> string" where
  "strip s = rstrip (lstrip s)"

text \<open>\<^verbatim>\<open>s.rstrip(";")\<close> and \<^verbatim>\<open>p.strip('"')\<close>\<close>

definition rstrip_semi :: "string \<Rightarrow> string" where
  "rstrip_semi s = rev (dropWhile (\<lambda>c. c = CHR '';'') (rev s))"

definition strip_quotes :: "string \<Rightarrow> string" where
  "strip_quotes p = rev (dropWhile (\<lambda>c. c = dq) (rev (dropWhile (\<lambda>c. c = dq) p)))"

text \<open>\<^verbatim>\<open>obj.split(".")\<close>: never the empty list.\<close>

fun split_on :: "char \<Rightarrow> string \<Rightarrow> string list" where
  "split_on d [] = [[]]"
| "split_on d (c # cs) =
     (if c = d then [] # split_on d cs
      else (case split_on d cs of [] \<Rightarrow> [[c]] | p # ps \<Rightarrow> (c # p) # ps))"

text \<open>\<^verbatim>\<open>sep.join(parts)\<close>\<close>

fun join_with :: "string \<Rightarrow> string list \<Rightarrow> string" where
  "join_with sep [] = []"
| "join_with sep [p] = p"
| "join_with sep (p # q # ps) = p @ sep @ join_with sep (q # ps)"

subsection \<open>Pattern matching\<close>

text \<open>
  A literal of the pattern matched case-insensitively at the head of the text: the text
  that follows the match, or \<open>None\<close>.
\<close>

fun ci_prefix :: "string \<Rightarrow> string \<Rightarrow> string option" where
  "ci_prefix [] s = Some s"
| "ci_prefix (p # ps) [] = None"
| "ci_prefix (p # ps) (c # cs) = (if ci_eq p c then ci_prefix ps cs else None)"

text \<open>
  \<^verbatim>\<open>\b\<close> at a position: the character before it (\<open>pw\<close> says whether it is a word
  character; there is none at the start of the text) and the character after it (none
  at the end) differ in being word characters.
\<close>

definition wb :: "bool \<Rightarrow> string \<Rightarrow> bool" where
  "wb pw t = (pw \<noteq> (case t of [] \<Rightarrow> False | c # _ \<Rightarrow> is_word c))"

text \<open>
  \<^verbatim>\<open>re.search\<close>: the leftmost position where the matcher \<open>m\<close> succeeds. The matcher
  gets whether the previous character is a word character and the text from the
  position on, and returns the matched text and the text after it. The result is the
  text before the match, the match, and the text after it.
\<close>

fun search :: "(bool \<Rightarrow> string \<Rightarrow> (string \<times> string) option) \<Rightarrow> bool \<Rightarrow> string
    \<Rightarrow> (string \<times> string \<times> string) option" where
  "search m pw [] = (case m pw [] of None \<Rightarrow> None | Some (g, r) \<Rightarrow> Some ([], g, r))"
| "search m pw (c # cs) =
     (case m pw (c # cs) of
        Some (g, r) \<Rightarrow> Some ([], g, r)
      | None \<Rightarrow> (case search m (is_word c) cs of
                   None \<Rightarrow> None
                 | Some (pre, g, r) \<Rightarrow> Some (c # pre, g, r)))"

text \<open>
  An alternation of keywords between two word boundaries, case-insensitively:
  \<^verbatim>\<open>\b(kw1|kw2|...)\b\<close>. The alternatives are tried in their order, each with the
  boundary behind it; the character before that boundary is the last letter of the
  keyword. The result is the matched text and the text after it.
\<close>

fun first_alt :: "string list \<Rightarrow> string \<Rightarrow> (string \<times> string) option" where
  "first_alt [] t = None"
| "first_alt (kw # kws) t =
     (case ci_prefix kw t of
        None \<Rightarrow> first_alt kws t
      | Some r \<Rightarrow> if wb True r then Some (take (length kw) t, r) else first_alt kws t)"

definition alt_at :: "string list \<Rightarrow> bool \<Rightarrow> string \<Rightarrow> (string \<times> string) option" where
  "alt_at kws pw t = (if wb pw t then first_alt kws t else None)"

text \<open>A single keyword: \<^verbatim>\<open>\bkw\b\<close>.\<close>

definition keyword_at :: "string \<Rightarrow> bool \<Rightarrow> string \<Rightarrow> (string \<times> string) option" where
  "keyword_at kw pw t = alt_at [kw] pw t"

text \<open>
  Two keywords separated by \<^verbatim>\<open>\s+\<close>, as in \<^verbatim>\<open>\bFETCH\s+FIRST\b\<close>. The greedy
  \<^verbatim>\<open>\s+\<close> takes all the white space: giving some back leaves a space where the
  second keyword must start.
\<close>

definition keyword2_at :: "string \<Rightarrow> string \<Rightarrow> bool \<Rightarrow> string \<Rightarrow> (string \<times> string) option" where
  "keyword2_at kw1 kw2 pw t =
     (if wb pw t then
        (case ci_prefix kw1 t of
           None \<Rightarrow> None
         | Some r \<Rightarrow>
             (if takeWhile is_space r = [] then None
              else (case ci_prefix kw2 (dropWhile is_space r) of
                      None \<Rightarrow> None
                    | Some r2 \<Rightarrow>
                        if wb True r2 then Some (take (length t - length r2) t, r2)
                        else None)))
      else None)"

text \<open>
  An exact literal of a pattern without \<^verbatim>\<open>re.IGNORECASE\<close> at the head of the text.
\<close>

fun lit_prefix :: "string \<Rightarrow> string \<Rightarrow> string option" where
  "lit_prefix [] s = Some s"
| "lit_prefix (p # ps) [] = None"
| "lit_prefix (p # ps) (c # cs) = (if p = c then lit_prefix ps cs else None)"

subsection \<open>Exceptions\<close>

text \<open>
  The messages of the \<^verbatim>\<open>ValueError\<close>s of \<^verbatim>\<open>clean_sql\<close> are Korean text: "the SQL is
  empty", "DML/DDL statements are not allowed", and "a table that is not allowed is
  included:" followed by the offending target. The model names each text, and keeps the
  target of the third as a string.
\<close>

datatype message = SQL_empty | DML_DDL_not_allowed | Table_not_allowed string

text \<open>
  The exceptions that reach the handlers of \<^verbatim>\<open>vision_execute\<close>: \<^verbatim>\<open>ValueError\<close>
  raised by \<^verbatim>\<open>clean_sql\<close>, \<^verbatim>\<open>oracledb.Error\<close> raised by the driver, and any other
  \<^verbatim>\<open>Exception\<close> (an \<^verbatim>\<open>OSError\<close> of the log file, for one), each with its text.
\<close>

datatype exn = ValueError message | OracleError string | OtherError string

subsection \<open>Code fences and the statement terminator\<close>

text \<open>
  \<^verbatim>\<open>re.sub(r"^```.*?\n|\n```$", "", s, flags=re.DOTALL)\<close>. The first alternative
  matches at the start of the text only: three backticks and, lazily, everything through
  the first newline after them. The second alternative is a newline and three backticks
  at the end of the text, or before a newline that ends the text.
\<close>

fun through_newline :: "string \<Rightarrow> string option" where
  "through_newline [] = None"
| "through_newline (c # cs) = (if c = nl then Some cs else through_newline cs)"

fun sub_closing_fence :: "string \<Rightarrow> string" where
  "sub_closing_fence [] = []"
| "sub_closing_fence (c # cs) =
     (if c # cs = nl # ''```'' then []
      else if c # cs = nl # ''```'' @ [nl] then [nl]
      else c # sub_closing_fence cs)"

definition strip_fence :: "string \<Rightarrow> string" where
  "strip_fence s =
     (case (if take 3 s = ''```'' then through_newline (drop 3 s) else None) of
        Some r \<Rightarrow> sub_closing_fence r
      | None \<Rightarrow> sub_closing_fence s)"

subsection \<open>Schema qualifier rewrite\<close>

text \<open>
  \<^verbatim>\<open>re.sub(r'"?HOL_AGENT_05"?\.', f'{self.V_SCHEMA}.', s, flags=re.IGNORECASE)\<close>.
  An optional quote that was taken is never given back with success: the next pattern
  character is not a quote. The replacement is a template of \<^verbatim>\<open>re.sub\<close>; it is the
  literal text for a schema name without a backslash, which is what the model covers.
\<close>

definition opt_dq :: "string \<Rightarrow> string" where
  "opt_dq s = (case s of [] \<Rightarrow> [] | c # cs \<Rightarrow> if c = dq then cs else c # cs)"

definition schema_qual_at :: "string \<Rightarrow> string option" where
  "schema_qual_at s =
     (case ci_prefix ''HOL_AGENT_05'' (opt_dq s) of
        None \<Rightarrow> None
      | Some r \<Rightarrow> (case opt_dq r of
                    [] \<Rightarrow> None
                  | c # r' \<Rightarrow> if c = CHR ''.'' then Some r' else None))"

lemma ci_prefix_length: "ci_prefix p s = Some r \<Longrightarrow> length s = length p + length r"
  by (induction p s rule: ci_prefix.induct) (auto split: if_splits)

lemma opt_dq_length: "length (opt_dq s) \<le> length s"
  by (cases s) (auto simp: opt_dq_def)

lemma schema_qual_at_shorter: "schema_qual_at s = Some r \<Longrightarrow> length r < length s"
proof -
  assume a: "schema_qual_at s = Some r"
  then obtain r1 where r1: "ci_prefix ''HOL_AGENT_05'' (opt_dq s) = Some r1"
    by (auto simp: schema_qual_at_def split: option.splits)
  with a have "length r < length (opt_dq r1)"
    by (auto simp: schema_qual_at_def split: list.splits if_splits)
  moreover have "length (opt_dq r1) \<le> length r1" by (rule opt_dq_length)
  moreover have "length r1 \<le> length (opt_dq s)" using ci_prefix_length [OF r1] by simp
  moreover have "length (opt_dq s) \<le> length s" by (rule opt_dq_length)
  ultimately show ?thesis by linarith
qed

text \<open>
  The substitution scans from the left; after a match it goes on behind the match, and
  the replacement is not scanned again.
\<close>

function sub_schema :: "string \<Rightarrow> string \<Rightarrow> string" where
  "sub_schema v [] = []"
| "sub_schema v (c # cs) =
     (case schema_qual_at (c # cs) of
        Some r \<Rightarrow> v @ ''.'' @ sub_schema v r
      | None \<Rightarrow> c # sub_schema v cs)"
  by pat_completeness auto
termination
  by (relation "measure (\<lambda>(v, s). length s)") (auto dest: schema_qual_at_shorter)

text \<open>\<^verbatim>\<open>if self.V_SCHEMA:\<close> skips the rewrite for \<^verbatim>\<open>None\<close> and for the empty name.\<close>

definition adjust_schema :: "string option \<Rightarrow> string \<Rightarrow> string" where
  "adjust_schema V_SCHEMA s =
     (case V_SCHEMA of
        None \<Rightarrow> s
      | Some v \<Rightarrow> if v = [] then s else sub_schema v s)"

subsection \<open>Forbidden keywords\<close>

definition forbidden :: "string list" where
  "forbidden = [''insert'', ''update'', ''delete'', ''merge'', ''create'', ''alter'',
     ''drop'', ''grant'', ''revoke'', ''truncate'']"

text \<open>
  \<^verbatim>\<open>re.search(r"\b(insert|update|...|truncate)\b", s, re.I)\<close>
\<close>

definition has_forbidden :: "string \<Rightarrow> bool" where
  "has_forbidden s = (search (alt_at forbidden) False s \<noteq> None)"

subsection \<open>Table allowlist\<close>

definition META_TBL :: string where
  "META_TBL = ''AP_HOLDS_ALL''"

text \<open>
  \<^verbatim>\<open>\b(from|join)\s+([A-Za-z0-9_\"\.]+)\<close> at a position: the target (the second group)
  and the text after it. Both repetitions are greedy and take all they can; giving
  characters back never helps.
\<close>

definition target_at :: "bool \<Rightarrow> string \<Rightarrow> (string \<times> string) option" where
  "target_at pw t =
     (if wb pw t then
        (case (case ci_prefix ''from'' t of Some r \<Rightarrow> Some r | None \<Rightarrow> ci_prefix ''join'' t) of
           None \<Rightarrow> None
         | Some r \<Rightarrow>
             (if takeWhile is_space r = [] then None
              else if takeWhile is_ident (dropWhile is_space r) = [] then None
              else Some (takeWhile is_ident (dropWhile is_space r),
                         dropWhile is_ident (dropWhile is_space r))))
      else None)"

lemma target_at_shorter: "target_at pw s = Some (obj, r) \<Longrightarrow> length r < length s"
proof -
  assume a: "target_at pw s = Some (obj, r)"
  then obtain r1 where r1: "ci_prefix ''from'' s = Some r1 \<or> ci_prefix ''join'' s = Some r1"
    and r: "r = dropWhile is_ident (dropWhile is_space r1)"
    by (auto simp: target_at_def split: option.splits if_splits)
  have "length r \<le> length r1"
    unfolding r by (meson length_dropWhile_le le_trans)
  moreover have "length r1 < length s"
    using r1 by (auto dest: ci_prefix_length)
  ultimately show ?thesis by simp
qed

text \<open>\<^verbatim>\<open>re.findall\<close>: the targets of the matches from left to right, without overlap.\<close>

function findall_targets :: "bool \<Rightarrow> string \<Rightarrow> string list" where
  "findall_targets pw [] = []"
| "findall_targets pw (c # cs) =
     (case target_at pw (c # cs) of
        Some (obj, r) \<Rightarrow> obj # findall_targets (is_word (last obj)) r
      | None \<Rightarrow> findall_targets (is_word c) cs)"
  by pat_completeness auto
termination
  by (relation "measure (\<lambda>(pw, s). length s)") (auto dest: target_at_shorter)

text \<open>
  \<^verbatim>\<open>parts = [p.strip('"') for p in obj.split(".")]\<close> and
  \<^verbatim>\<open>table_name = parts[-1].upper()\<close>
\<close>

definition table_name :: "string \<Rightarrow> string" where
  "table_name obj = map upper_char (last (map strip_quotes (split_on CHR ''.'' obj)))"

text \<open>The loop raises at the first target whose table is not the allowed one.\<close>

definition check_tables :: "string \<Rightarrow> string option" where
  "check_tables s =
     find (\<lambda>obj. table_name obj \<noteq> map upper_char META_TBL) (findall_targets False s)"

subsection \<open>Clause split\<close>

text \<open>
  \<^verbatim>\<open>(?i)\bFETCH\s+FIRST\b.*\<close>: the dot does not match a newline, so the clause runs to
  the end of its line. \<^verbatim>\<open>(?i)\bORDER\s+BY\b[^\n;]*\<close> stops at a semicolon as well.
\<close>

definition fetch_at :: "bool \<Rightarrow> string \<Rightarrow> (string \<times> string) option" where
  "fetch_at pw t =
     (case keyword2_at ''FETCH'' ''FIRST'' pw t of
        None \<Rightarrow> None
      | Some (g, r) \<Rightarrow> Some (g @ takeWhile (\<lambda>c. c \<noteq> nl) r, dropWhile (\<lambda>c. c \<noteq> nl) r))"

definition order_at :: "bool \<Rightarrow> string \<Rightarrow> (string \<times> string) option" where
  "order_at pw t =
     (case keyword2_at ''ORDER'' ''BY'' pw t of
        None \<Rightarrow> None
      | Some (g, r) \<Rightarrow>
          Some (g @ takeWhile (\<lambda>c. c \<noteq> nl \<and> c \<noteq> CHR '';'') r,
                dropWhile (\<lambda>c. c \<noteq> nl \<and> c \<noteq> CHR '';'') r))"

text \<open>
  One step of the split: \<^verbatim>\<open>m = re.search(...)\<close>; with a match the clause is
  \<^verbatim>\<open>m.group(0).strip()\<close> and the statement becomes \<^verbatim>\<open>s[:m.start()].strip()\<close>, so the
  text after the match is dropped; without a match the clause is empty and the statement
  stays. The result is the clause and the statement.
\<close>

definition split_clause :: "(bool \<Rightarrow> string \<Rightarrow> (string \<times> string) option) \<Rightarrow> string
    \<Rightarrow> string \<times> string" where
  "split_clause m s =
     (case search m False s of
        None \<Rightarrow> ([], s)
      | Some (pre, g, r) \<Rightarrow> (strip g, strip pre))"

text \<open>
  \<^verbatim>\<open>re.search(r"ORDER\s+BY\s+[A-Za-z0-9_\".]", order_part)\<close>, without
  \<^verbatim>\<open>re.IGNORECASE\<close>: the keywords are matched in upper case only.
\<close>

definition order_col_at :: "bool \<Rightarrow> string \<Rightarrow> (string \<times> string) option" where
  "order_col_at pw t =
     (case lit_prefix ''ORDER'' t of
        None \<Rightarrow> None
      | Some r \<Rightarrow>
          (if takeWhile is_space r = [] then None
           else (case lit_prefix ''BY'' (dropWhile is_space r) of
                   None \<Rightarrow> None
                 | Some r2 \<Rightarrow>
                     (if takeWhile is_space r2 = [] then None
                      else (case dropWhile is_space r2 of
                              [] \<Rightarrow> None
                            | c # r3 \<Rightarrow>
                                if is_ident c then Some (take (length t - length r3) t, r3)
                                else None)))))"

definition default_order :: string where
  "default_order = ''ORDER BY '' @ [dq] @ ''HOLD_DATE'' @ [dq] @ '' ASC''"

definition fix_order :: "string \<Rightarrow> string" where
  "fix_order order_part =
     (if order_part \<noteq> [] \<and> search order_col_at False order_part = None then default_order
      else order_part)"

subsection \<open>Mandatory predicates\<close>

definition FORCE_RELEASE_NULL :: bool where
  "FORCE_RELEASE_NULL = True"

definition HOLD_CODES :: "string list" where
  "HOLD_CODES = [''QTY ORD'', ''QTY REC'', ''PRICE'', ''AMT ORG'']"

text \<open>\<^verbatim>\<open>repr\<close> of a \<^verbatim>\<open>str\<close> without quote, backslash or control character.\<close>

definition repr_str :: "string \<Rightarrow> string" where
  "repr_str x = [sq] @ x @ [sq]"

definition fixed :: "string list" where
  "fixed =
     (if FORCE_RELEASE_NULL then [''RELEASE_LOOKUP_CODE IS NULL''] else []) @
     (if HOLD_CODES \<noteq> [] then
        [''HOLD_LOOKUP_CODE IN ('' @ join_with '', '' (map repr_str HOLD_CODES) @ '')'']
      else [])"

definition inject :: string where
  "inject = join_with '' AND '' fixed"

text \<open>
  \<^verbatim>\<open>re.sub(r"(?i)\bwhere\b", f"WHERE {inject} AND", s, count=1)\<close> when
  \<^verbatim>\<open>re.search(r"\bwhere\b", s, re.I)\<close> finds the keyword, and
  \<^verbatim>\<open>s += f" WHERE {inject}"\<close> otherwise.
\<close>

definition inject_where :: "string \<Rightarrow> string" where
  "inject_where s =
     (case search (keyword_at ''where'') False s of
        Some (pre, g, r) \<Rightarrow> pre @ ''WHERE '' @ inject @ '' AND'' @ r
      | None \<Rightarrow> s @ '' WHERE '' @ inject)"

subsection \<open>The sanitizer\<close>

definition default_fetch :: string where
  "default_fetch = ''FETCH FIRST 100 ROWS ONLY''"

text \<open>
  The statement as the checks see it: stripped, without code fence and trailing
  semicolons, and with the schema qualifier rewritten.
\<close>

definition prepare :: "string option \<Rightarrow> string \<Rightarrow> string" where
  "prepare V_SCHEMA sql = adjust_schema V_SCHEMA (rstrip_semi (strip_fence (strip sql)))"

text \<open>
  The rest of \<^verbatim>\<open>clean_sql\<close> on a statement that passed the checks: the clause split,
  the order default, the predicates, the limit default and the reassembly
  \<^verbatim>\<open>" ".join(p for p in [s.strip(), order_part, fetch_part] if p).strip()\<close>.
\<close>

definition rebuild :: "string \<Rightarrow> string" where
  "rebuild s0 =
     (let (fetch_part, s1) = split_clause fetch_at s0;
          (order_part, s2) = split_clause order_at s1;
          order_part = fix_order order_part;
          s3 = inject_where s2;
          fetch_part = (if fetch_part = [] then default_fetch else fetch_part)
      in strip (join_with '' '' (filter (\<lambda>p. p \<noteq> []) [strip s3, order_part, fetch_part])))"

definition clean_sql :: "string option \<Rightarrow> string \<Rightarrow> exn + string" where
  "clean_sql V_SCHEMA sql =
     (if sql = [] \<or> strip sql = [] then Inl (ValueError SQL_empty)
      else
        let s = prepare V_SCHEMA sql in
        if has_forbidden s then Inl (ValueError DML_DDL_not_allowed)
        else
          (case check_tables s of
             Some obj \<Rightarrow> Inl (ValueError (Table_not_allowed obj))
           | None \<Rightarrow> Inr (rebuild s)))"

subsection \<open>The executor\<close>

text \<open>
  What \<^verbatim>\<open>vision_execute\<close> meets outside the process, one field for each call that can
  raise: \<^verbatim>\<open>self.conn_vision()\<close> with \<^verbatim>\<open>c.cursor()\<close> (\<open>None\<close> when the connection
  opens), \<^verbatim>\<open>cur.execute(q)\<close> with \<^verbatim>\<open>cur.description\<close> and \<^verbatim>\<open>cur.fetchall()\<close> (the
  column names, \<open>None\<close> when there is no description, and the fetched rows),
  \<^verbatim>\<open>open("vision_sql.log", "a")\<close> with \<^verbatim>\<open>f.write\<close> (\<open>None\<close> when the line is written),
  and \<^verbatim>\<open>datetime.now()\<close>.
\<close>

record 'v world =
  connect_result :: "exn option"
  execute_result :: "string \<Rightarrow> exn + (string list option \<times> 'v list list)"
  log_result :: "exn option"
  now :: string

text \<open>
  What the executor does to the outside, in order: it opens a connection, hands a
  statement to \<^verbatim>\<open>cur.execute\<close>, and appends a line to the log. The line is
  \<^verbatim>\<open>[{datetime.now()}] {q}\<close> and, on the next line, the number of rows between two
  Korean words; the model keeps its three variable parts.
\<close>

datatype event = Connect | Execute string | Log_append string string nat

text \<open>
  The text of the \<^verbatim>\<open>error\<close> key: a Korean phrase, "Oracle DB error occurred:" in the
  first handler and "general error occurred:" in the second, followed by \<^verbatim>\<open>str(e)\<close>.
\<close>

datatype error_text = Oracle_db_error exn | General_error exn

text \<open>
  The value returned: the list of the rows, each a dictionary from the column names to
  the values, or the list of the single dictionary \<^verbatim>\<open>{"error": err_msg, "sql": sql}\<close>.
\<close>

datatype 'v payload = Rows "(string \<times> 'v) list list" | Error_payload error_text string

text \<open>
  The two handlers: \<^verbatim>\<open>except oracledb.Error\<close> and \<^verbatim>\<open>except Exception\<close>. Both pair the
  message with \<^verbatim>\<open>sql\<close>, the argument of \<^verbatim>\<open>vision_execute\<close>.
\<close>

definition handle_exn :: "exn \<Rightarrow> string \<Rightarrow> 'v payload" where
  "handle_exn e sql =
     (case e of
        OracleError t \<Rightarrow> Error_payload (Oracle_db_error e) sql
      | _ \<Rightarrow> Error_payload (General_error e) sql)"

text \<open>
  \<^verbatim>\<open>cols = [d[0] for d in cur.description] if cur.description else []\<close> and
  \<^verbatim>\<open>result = [dict(zip(cols, r)) for r in rows]\<close>; a dictionary is kept as the list
  of its pairs.
\<close>

definition to_result :: "string list option \<Rightarrow> 'v list list \<Rightarrow> (string \<times> 'v) list list" where
  "to_result description rows =
     (let cols = (case description of None \<Rightarrow> [] | Some ds \<Rightarrow> ds)
      in map (\<lambda>r. zip cols r) rows)"

text \<open>The value returned and the events, in the order of the source.\<close>

definition vision_execute :: "'v world \<Rightarrow> string option \<Rightarrow> string \<Rightarrow> 'v payload \<times> event list" where
  "vision_execute w V_SCHEMA sql =
     (case clean_sql V_SCHEMA sql of
        Inl e \<Rightarrow> (handle_exn e sql, [])
      | Inr q \<Rightarrow>
          (case connect_result w of
             Some e \<Rightarrow> (handle_exn e sql, [Connect])
           | None \<Rightarrow>
               (case execute_result w q of
                  Inl e \<Rightarrow> (handle_exn e sql, [Connect, Execute q])
                | Inr (description, rows) \<Rightarrow>
                    (let result = to_result description rows in
                     (case log_result w of
                        Some e \<Rightarrow> (handle_exn e sql, [Connect, Execute q])
                      | None \<Rightarrow>
                          (Rows result,
                           [Connect, Execute q, Log_append (now w) q (length result)]))))))"

text \<open>
  Whether the character before a position is a word character: \<open>pw\<close> at the start of
  the text, and the last character of the text before the position otherwise.
\<close>

definition prev_word :: "bool \<Rightarrow> string \<Rightarrow> bool" where
  "prev_word pw pre = (if pre = [] then pw else is_word (last pre))"

text \<open>A world for the examples: the connection opens, every statement returns one row.\<close>

definition example_world :: "nat world" where
  "example_world =
     \<lparr>connect_result = None,
      execute_result = (\<lambda>q. Inr (Some [''HOLD_ID''], [[1]])),
      log_result = None,
      now = ''2025-01-01 00:00:00''\<rparr>"

text \<open>
  Three more worlds: the database rejects the statement, the database cannot be reached,
  and the log file cannot be written.
\<close>

definition fault_world :: "nat world" where
  "fault_world = example_world\<lparr>execute_result := (\<lambda>q. Inl (OracleError ''ORA-00904''))\<rparr>"

definition unreachable_world :: "nat world" where
  "unreachable_world = example_world\<lparr>connect_result := Some (OracleError ''DPY-6005'')\<rparr>"

definition log_fault_world :: "nat world" where
  "log_fault_world = example_world\<lparr>log_result := Some (OtherError ''Permission denied'')\<rparr>"

text \<open>
  The texts that the pattern \<^verbatim>\<open>"?HOL_AGENT_05"?\<close> matches: the schema name in any
  letter case, with or without a quote on either side.
\<close>

definition is_qualifier :: "string \<Rightarrow> bool" where
  "is_qualifier w =
     (\<exists>m. list_all2 ci_eq ''HOL_AGENT_05'' m \<and>
        (w = m \<or> w = dq # m \<or> w = m @ [dq] \<or> w = dq # m @ [dq]))"

text \<open>
  A keyword occurs in a text as a standalone word, case-insensitively: the text is
  \<open>pre @ w @ post\<close>, where \<open>w\<close> is the keyword in some letter case, \<open>pre\<close> does not
  end and \<open>post\<close> does not start with a word character.
\<close>

definition standalone :: "string \<Rightarrow> string \<Rightarrow> bool" where
  "standalone kw s =
     (\<exists>pre w post. s = pre @ w @ post \<and> list_all2 ci_eq kw w \<and>
        (pre = [] \<or> \<not> is_word (last pre)) \<and> (post = [] \<or> \<not> is_word (hd post)))"

text \<open>A text without white space at either end, as \<^verbatim>\<open>strip\<close> leaves it.\<close>

definition stripped :: "string \<Rightarrow> bool" where
  "stripped x = (x = [] \<or> (\<not> is_space (hd x) \<and> \<not> is_space (last x)))"

text \<open>
  A column reference after \<^verbatim>\<open>ORDER BY\<close> with the keywords in any letter case: the
  pattern of \<open>order_col_at\<close> as it would be under \<^verbatim>\<open>re.IGNORECASE\<close>. The source
  does not use it; the properties compare the two.
\<close>

definition order_col_ci_at :: "bool \<Rightarrow> string \<Rightarrow> (string \<times> string) option" where
  "order_col_ci_at pw t =
     (case ci_prefix ''ORDER'' t of
        None \<Rightarrow> None
      | Some r \<Rightarrow>
          (if takeWhile is_space r = [] then None
           else (case ci_prefix ''BY'' (dropWhile is_space r) of
                   None \<Rightarrow> None
                 | Some r2 \<Rightarrow>
                     (if takeWhile is_space r2 = [] then None
                      else (case dropWhile is_space r2 of
                              [] \<Rightarrow> None
                            | c # r3 \<Rightarrow>
                                if is_ident c then Some (take (length t - length r3) t, r3)
                                else None)))))"

text \<open>
  The keyword occurs as a standalone word at position \<open>n\<close> of the text: \<open>n\<close> characters
  stand before it.
\<close>

definition occurs_at :: "string \<Rightarrow> string \<Rightarrow> nat \<Rightarrow> bool" where
  "occurs_at kw s n =
     (\<exists>pre w post. s = pre @ w @ post \<and> length pre = n \<and> list_all2 ci_eq kw w \<and>
        (pre = [] \<or> \<not> is_word (last pre)) \<and> (post = [] \<or> \<not> is_word (hd post)))"

section \<open>Properties\<close>

subsection \<open>Characters and searches\<close>

lemma upper_char_cases:
  "upper_char c = c \<or> (is_lower c \<and> is_upper (upper_char c))"
  by (simp add: upper_char_def is_lower_def is_upper_def)

lemma is_word_upper_char: "is_word (upper_char c) = is_word c"
  using upper_char_cases [of c] by (auto simp: is_word_def)

lemma ci_eq_is_word: "ci_eq p c \<Longrightarrow> is_word c = is_word p"
  by (metis ci_eq_def is_word_upper_char)

lemma ci_eq_refl: "ci_eq c c"
  by (simp add: ci_eq_def)

lemma upper_char_not_alpha: "\<not> is_lower c \<Longrightarrow> \<not> is_upper c \<Longrightarrow> upper_char c = c"
  using upper_char_cases [of c] by auto



lemma prev_word_Nil [simp]: "prev_word pw [] = pw"
  by (simp add: prev_word_def)

lemma prev_word_Cons: "prev_word pw (c # pre) = prev_word (is_word c) pre"
  by (simp add: prev_word_def)

lemma search_None_iff:
  "search m pw s = None \<longleftrightarrow> (\<forall>pre t. s = pre @ t \<longrightarrow> m (prev_word pw pre) t = None)"
proof (induction s arbitrary: pw)
  case Nil
  then show ?case by (auto split: option.splits)
next
  case (Cons c cs)
  have "(\<forall>pre t. c # cs = pre @ t \<longrightarrow> m (prev_word pw pre) t = None) \<longleftrightarrow>
        m pw (c # cs) = None \<and> (\<forall>pre t. cs = pre @ t \<longrightarrow> m (prev_word (is_word c) pre) t = None)"
    (is "?L \<longleftrightarrow> ?R")
  proof
    assume l: ?L
    have "m pw (c # cs) = None" using l [rule_format, of "[]" "c # cs"] by simp
    moreover have "\<forall>pre t. cs = pre @ t \<longrightarrow> m (prev_word (is_word c) pre) t = None"
    proof (intro allI impI)
      fix pre t assume "cs = pre @ t"
      then show "m (prev_word (is_word c) pre) t = None"
        using l [rule_format, of "c # pre" t] by (simp add: prev_word_Cons)
    qed
    ultimately show ?R by simp
  next
    assume r: ?R
    show ?L
    proof (intro allI impI)
      fix pre t assume e: "c # cs = pre @ t"
      show "m (prev_word pw pre) t = None"
      proof (cases pre)
        case Nil
        with e r show ?thesis by simp
      next
        case (Cons a pre')
        with e have "a = c" "cs = pre' @ t" by simp_all
        with r Cons show ?thesis by (simp add: prev_word_Cons)
      qed
    qed
  qed
  with Cons.IH [of "is_word c"] show ?case
    by (auto split: option.splits)
qed

lemma search_Some:
  "search m pw s = Some (pre, g, r) \<Longrightarrow>
     (\<exists>t. s = pre @ t \<and> m (prev_word pw pre) t = Some (g, r)) \<and>
     (\<forall>p u. pre = p @ u \<and> u \<noteq> [] \<longrightarrow> m (prev_word pw p) (u @ drop (length pre) s) = None)"
proof (induction s arbitrary: pw pre)
  case Nil
  then show ?case by (auto split: option.splits)
next
  case (Cons c cs)
  show ?case
  proof (cases "m pw (c # cs)")
    case (Some x)
    with Cons.prems show ?thesis by (auto split: prod.splits)
  next
    case None
    with Cons.prems obtain pre' where s: "search m (is_word c) cs = Some (pre', g, r)"
      and pre: "pre = c # pre'"
      by (auto split: option.splits)
    note ih = Cons.IH [OF s]
    from ih obtain t where t: "cs = pre' @ t" "m (prev_word (is_word c) pre') t = Some (g, r)"
      by blast
    have a: "\<exists>t. c # cs = pre @ t \<and> m (prev_word pw pre) t = Some (g, r)"
      using t pre by (auto simp: prev_word_Cons)
    have b: "\<forall>p u. pre = p @ u \<and> u \<noteq> [] \<longrightarrow> m (prev_word pw p) (u @ drop (length pre) (c # cs)) = None"
    proof (intro allI impI)
      fix p u assume pu: "pre = p @ u \<and> u \<noteq> []"
      show "m (prev_word pw p) (u @ drop (length pre) (c # cs)) = None"
      proof (cases p)
        case Nil
        with pu pre t have "u @ drop (length pre) (c # cs) = c # cs" by auto
        with None Nil show ?thesis by simp
      next
        case (Cons a p')
        with pu pre have "a = c" "pre' = p' @ u" by simp_all
        with ih [THEN conjunct2, rule_format, of p' u] pu
        have "m (prev_word (is_word c) p') (u @ drop (length pre') cs) = None"
          by simp
        with Cons \<open>a = c\<close> pre show ?thesis by (simp add: prev_word_Cons)
      qed
    qed
    from a b show ?thesis by (rule conjI)
  qed
qed

lemma ci_prefix_Some_iff:
  "ci_prefix p t = Some r \<longleftrightarrow> (\<exists>w. t = w @ r \<and> list_all2 ci_eq p w)"
proof (induction p t rule: ci_prefix.induct)
  case (1 s)
  then show ?case by auto
next
  case (2 p ps)
  then show ?case by (auto simp: list_all2_Cons1)
next
  case (3 p ps c cs)
  then show ?case by (auto simp: list_all2_Cons1)
qed


lemma ci_prefix_append: "list_all2 ci_eq p w \<Longrightarrow> ci_prefix p (w @ r) = Some r"
  by (auto simp: ci_prefix_Some_iff)


lemma first_alt_complete:
  "kw \<in> set kws \<Longrightarrow> ci_prefix kw t = Some r \<Longrightarrow> wb True r \<Longrightarrow> first_alt kws t \<noteq> None"
  by (induction kws) (auto split: option.splits)

subsection \<open>Validation before any database contact\<close>

text \<open>
  Claim C4. Validation failures are fail-fast and prevent any database contact: on every
  input on which \<^verbatim>\<open>clean_sql\<close> raises, \<^verbatim>\<open>vision_execute\<close> returns the error payload
  with no event at all (no connection, no execution, no log line); and every statement
  handed to \<^verbatim>\<open>cur.execute\<close> is the statement that \<^verbatim>\<open>clean_sql\<close> returned for the input.
\<close>

theorem vision_execute_fail_fast:
  "(\<forall>e. clean_sql V sql = Inl e \<longrightarrow>
        vision_execute w V sql = (handle_exn e sql, [])) \<and>
   (\<forall>q. Execute q \<in> set (snd (vision_execute w V sql)) \<longrightarrow> clean_sql V sql = Inr q)"
  by (auto simp: vision_execute_def Let_def split: sum.splits option.splits prod.splits)

theorem vision_execute_fail_fast_witness:
  "clean_sql None ''DROP TABLE AP_HOLDS_ALL'' = Inl (ValueError DML_DDL_not_allowed) \<and>
   vision_execute example_world None ''DROP TABLE AP_HOLDS_ALL'' =
     (Error_payload (General_error (ValueError DML_DDL_not_allowed)) ''DROP TABLE AP_HOLDS_ALL'', []) \<and>
   Execute (rebuild ''SELECT 1'') \<in> set (snd (vision_execute example_world None ''SELECT 1'')) \<and>
   clean_sql None ''SELECT 1'' = Inr (rebuild ''SELECT 1'')"
proof -
  have a: "clean_sql None ''DROP TABLE AP_HOLDS_ALL'' = Inl (ValueError DML_DDL_not_allowed)"
    by code_simp
  have b: "Execute (rebuild ''SELECT 1'') \<in> set (snd (vision_execute example_world None ''SELECT 1''))"
    by code_simp
  note t1 = vision_execute_fail_fast [of None "''DROP TABLE AP_HOLDS_ALL''" example_world]
  note t2 = vision_execute_fail_fast [of None "''SELECT 1''" example_world]
  from t1 a have c: "vision_execute example_world None ''DROP TABLE AP_HOLDS_ALL'' =
     (handle_exn (ValueError DML_DDL_not_allowed) ''DROP TABLE AP_HOLDS_ALL'', [])"
    by blast
  from t2 b have d: "clean_sql None ''SELECT 1'' = Inr (rebuild ''SELECT 1'')"
    by blast
  from a b c d show ?thesis by (simp add: handle_exn_def)
qed

subsection \<open>The outcomes of the sanitizer\<close>



subsection \<open>Database faults\<close>

lemma length_to_result: "length (to_result d rows) = length rows"
  by (simp add: to_result_def)

lemma handle_exn_sql: "\<exists>t. (handle_exn e sql :: 'v payload) = Error_payload t sql"
  by (cases e) (simp_all add: handle_exn_def)

lemma inject_text:
  "inject = ''RELEASE_LOOKUP_CODE IS NULL AND HOLD_LOOKUP_CODE IN ('' @ [sq] @ ''QTY ORD'' @ [sq] @
     '', '' @ [sq] @ ''QTY REC'' @ [sq] @ '', '' @ [sq] @ ''PRICE'' @ [sq] @ '', '' @ [sq] @
     ''AMT ORG'' @ [sq] @ '')''"
  by (simp add: inject_def fixed_def FORCE_RELEASE_NULL_def HOLD_CODES_def repr_str_def)

text \<open>
  Claim C8, as amended. When the connection or the execution raises, \<^verbatim>\<open>vision_execute\<close>
  returns the error payload as a value; its \<^verbatim>\<open>sql\<close> field is the raw statement that
  \<^verbatim>\<open>vision_execute\<close> was called with, for every exception, while the statement sent to
  the database is the one \<^verbatim>\<open>clean_sql\<close> returned.
\<close>

theorem vision_execute_db_fault:
  "clean_sql V sql = Inr q \<Longrightarrow>
   (\<forall>e. connect_result w = Some e \<longrightarrow>
      vision_execute w V sql = (handle_exn e sql, [Connect])) \<and>
   (\<forall>e. connect_result w = None \<and> execute_result w q = Inl e \<longrightarrow>
      vision_execute w V sql = (handle_exn e sql, [Connect, Execute q])) \<and>
   (\<forall>e. \<exists>t. (handle_exn e sql :: 'v payload) = Error_payload t sql)"
  using handle_exn_sql by (auto simp: vision_execute_def)

theorem vision_execute_db_fault_witness:
  "clean_sql None ''SELECT 1'' = Inr (rebuild ''SELECT 1'') \<and>
   vision_execute unreachable_world None ''SELECT 1'' =
     (Error_payload (Oracle_db_error (OracleError ''DPY-6005'')) ''SELECT 1'', [Connect]) \<and>
   vision_execute fault_world None ''SELECT 1'' =
     (Error_payload (Oracle_db_error (OracleError ''ORA-00904'')) ''SELECT 1'',
      [Connect, Execute (rebuild ''SELECT 1'')])"
proof -
  have a: "clean_sql None ''SELECT 1'' = Inr (rebuild ''SELECT 1'')" by code_simp
  have b: "connect_result unreachable_world = Some (OracleError ''DPY-6005'')"
    by (simp add: unreachable_world_def example_world_def)
  have c: "connect_result fault_world = None \<and>
           execute_result fault_world (rebuild ''SELECT 1'') = Inl (OracleError ''ORA-00904'')"
    by (simp add: fault_world_def example_world_def)
  from vision_execute_db_fault [OF a, of unreachable_world] b
  have d: "vision_execute unreachable_world None ''SELECT 1'' =
     (handle_exn (OracleError ''DPY-6005'') ''SELECT 1'', [Connect])"
    by blast
  from vision_execute_db_fault [OF a, of fault_world] c
  have e: "vision_execute fault_world None ''SELECT 1'' =
     (handle_exn (OracleError ''ORA-00904'') ''SELECT 1'', [Connect, Execute (rebuild ''SELECT 1'')])"
    by blast
  from a d e show ?thesis by (simp add: handle_exn_def)
qed

text \<open>
  The claim as stated asks for the sanitized statement in the \<^verbatim>\<open>sql\<close> field after an
  execution fault. Here the database rejects the statement it was sent, and the payload
  carries the raw statement, which is a different text.
\<close>

theorem vision_execute_fault_sql_counterexample:
  "vision_execute fault_world None ''SELECT * FROM AP_HOLDS_ALL'' =
     (Error_payload (Oracle_db_error (OracleError ''ORA-00904'')) ''SELECT * FROM AP_HOLDS_ALL'',
      [Connect,
       Execute (''SELECT * FROM AP_HOLDS_ALL WHERE '' @ inject @ '' FETCH FIRST 100 ROWS ONLY'')]) \<and>
   ''SELECT * FROM AP_HOLDS_ALL'' \<noteq>
     ''SELECT * FROM AP_HOLDS_ALL WHERE '' @ inject @ '' FETCH FIRST 100 ROWS ONLY''"
proof -
  have "clean_sql None ''SELECT * FROM AP_HOLDS_ALL'' =
     Inr (''SELECT * FROM AP_HOLDS_ALL WHERE '' @ inject @ '' FETCH FIRST 100 ROWS ONLY'')"
    by code_simp
  then show ?thesis
    by (simp add: vision_execute_def fault_world_def example_world_def handle_exn_def)
qed

subsection \<open>The audit log\<close>

text \<open>
  Claim C9, as amended. After a successful execution the log line is appended with the
  time, the statement handed to the database and the number of rows, and the rows are
  returned, when the write succeeds; when the write raises, the exception reaches the
  second handler and the error payload is returned in place of the rows.
\<close>

theorem vision_execute_log:
  "clean_sql V sql = Inr q \<Longrightarrow> connect_result w = None \<Longrightarrow>
   execute_result w q = Inr (d, rows) \<Longrightarrow>
   (log_result w = None \<longrightarrow>
      vision_execute w V sql =
        (Rows (to_result d rows), [Connect, Execute q, Log_append (now w) q (length rows)])) \<and>
   (\<forall>e. log_result w = Some e \<longrightarrow>
      vision_execute w V sql = (handle_exn e sql, [Connect, Execute q]))"
  by (auto simp: vision_execute_def Let_def length_to_result)

theorem vision_execute_log_witness:
  "clean_sql None ''SELECT 1'' = Inr (rebuild ''SELECT 1'') \<and>
   vision_execute example_world None ''SELECT 1'' =
     (Rows [[(''HOLD_ID'', 1)]],
      [Connect, Execute (rebuild ''SELECT 1''),
       Log_append ''2025-01-01 00:00:00'' (rebuild ''SELECT 1'') 1]) \<and>
   vision_execute log_fault_world None ''SELECT 1'' =
     (Error_payload (General_error (OtherError ''Permission denied'')) ''SELECT 1'',
      [Connect, Execute (rebuild ''SELECT 1'')])"
proof -
  have a: "clean_sql None ''SELECT 1'' = Inr (rebuild ''SELECT 1'')" by code_simp
  have b: "connect_result example_world = None" "log_result example_world = None"
    "execute_result example_world (rebuild ''SELECT 1'') = Inr (Some [''HOLD_ID''], [[1]])"
    "now example_world = ''2025-01-01 00:00:00''"
    by (simp_all add: example_world_def)
  have c: "connect_result log_fault_world = None"
    "log_result log_fault_world = Some (OtherError ''Permission denied'')"
    "execute_result log_fault_world (rebuild ''SELECT 1'') = Inr (Some [''HOLD_ID''], [[1]])"
    by (simp_all add: log_fault_world_def example_world_def)
  from vision_execute_log [OF a b(1) b(3)] b(2) b(4)
  have d: "vision_execute example_world None ''SELECT 1'' =
     (Rows (to_result (Some [''HOLD_ID'']) [[1]]),
      [Connect, Execute (rebuild ''SELECT 1''),
       Log_append ''2025-01-01 00:00:00'' (rebuild ''SELECT 1'') 1])"
    by simp
  from vision_execute_log [OF a c(1) c(3)] c(2)
  have e: "vision_execute log_fault_world None ''SELECT 1'' =
     (handle_exn (OtherError ''Permission denied'') ''SELECT 1'',
      [Connect, Execute (rebuild ''SELECT 1'')])"
    by blast
  from a d e show ?thesis by (simp add: handle_exn_def to_result_def)
qed

text \<open>
  The claim as stated promises the rows whatever happens to the log. Here the database
  returns a row, the log cannot be written, and the caller gets the error payload.
\<close>

theorem vision_execute_log_failure_counterexample:
  "vision_execute log_fault_world None ''SELECT * FROM AP_HOLDS_ALL'' =
     (Error_payload (General_error (OtherError ''Permission denied''))
        ''SELECT * FROM AP_HOLDS_ALL'',
      [Connect,
       Execute (''SELECT * FROM AP_HOLDS_ALL WHERE '' @ inject @ '' FETCH FIRST 100 ROWS ONLY'')]) \<and>
   execute_result log_fault_world
       (''SELECT * FROM AP_HOLDS_ALL WHERE '' @ inject @ '' FETCH FIRST 100 ROWS ONLY'') =
     Inr (Some [''HOLD_ID''], [[1]])"
proof -
  have "clean_sql None ''SELECT * FROM AP_HOLDS_ALL'' =
     Inr (''SELECT * FROM AP_HOLDS_ALL WHERE '' @ inject @ '' FETCH FIRST 100 ROWS ONLY'')"
    by code_simp
  then show ?thesis
    by (simp add: vision_execute_def log_fault_world_def example_world_def handle_exn_def)
qed

subsection \<open>The schema qualifier rewrite applied twice\<close>





lemma opt_dq_cases: "opt_dq s = s \<and> (s = [] \<or> hd s \<noteq> dq) \<or> s = dq # opt_dq s"
  by (cases s) (auto simp: opt_dq_def)

lemma schema_qual_at_Some:
  "schema_qual_at s = Some r \<Longrightarrow> \<exists>w. s = w @ ''.'' @ r \<and> is_qualifier w"
proof -
  assume a: "schema_qual_at s = Some r"
  then obtain r1 where r1: "ci_prefix ''HOL_AGENT_05'' (opt_dq s) = Some r1"
    by (auto simp: schema_qual_at_def split: option.splits)
  then obtain m where m: "opt_dq s = m @ r1" "list_all2 ci_eq ''HOL_AGENT_05'' m"
    by (auto simp: ci_prefix_Some_iff)
  from a r1 have r: "opt_dq r1 = CHR ''.'' # r"
    by (auto simp: schema_qual_at_def split: list.splits if_splits)
  from opt_dq_cases [of r1] r have r1c: "r1 = ''.'' @ r \<or> r1 = [dq] @ ''.'' @ r"
    by auto
  from opt_dq_cases [of s] m have sc: "s = m @ r1 \<or> s = dq # m @ r1"
    by auto
  from r1c sc have "s = m @ ''.'' @ r \<or> s = (dq # m) @ ''.'' @ r \<or>
      s = (m @ [dq]) @ ''.'' @ r \<or> s = (dq # m @ [dq]) @ ''.'' @ r"
    by auto
  with m(2) show ?thesis
    unfolding is_qualifier_def by blast
qed





lemma schema_qual_at_no_dot: "CHR ''.'' \<notin> set s \<Longrightarrow> schema_qual_at s = None"
proof (rule ccontr)
  assume a: "CHR ''.'' \<notin> set s" "schema_qual_at s \<noteq> None"
  then obtain r where "schema_qual_at s = Some r" by auto
  from schema_qual_at_Some [OF this] a show False by auto
qed








subsection \<open>Forbidden keywords\<close>

lemma forbidden_starts_with_letter: "kw \<in> set forbidden \<Longrightarrow> kw \<noteq> [] \<and> is_word (hd kw)"
  by (auto simp: forbidden_def is_word_def is_lower_def)

lemma standalone_has_forbidden:
  assumes kw: "kw \<in> set forbidden" and st: "standalone kw s"
  shows "has_forbidden s"
proof -
  from st obtain pre w post where s: "s = pre @ w @ post" and w: "list_all2 ci_eq kw w"
    and b1: "pre = [] \<or> \<not> is_word (last pre)" and b2: "post = [] \<or> \<not> is_word (hd post)"
    unfolding standalone_def by blast
  from forbidden_starts_with_letter [OF kw] obtain k ks where k: "kw = k # ks" "is_word k"
    by (cases kw) auto
  with w obtain c cs where c: "w = c # cs" "ci_eq k c" by (auto simp: list_all2_Cons1)
  with k have "is_word c" by (simp add: ci_eq_is_word)
  moreover from b1 have "prev_word False pre = False" by (auto simp: prev_word_def)
  ultimately have wb1: "wb (prev_word False pre) (w @ post)" using c by (simp add: wb_def)
  from b2 have wb2: "wb True post" by (cases post) (auto simp: wb_def)
  from w have "ci_prefix kw (w @ post) = Some post" by (rule ci_prefix_append)
  from first_alt_complete [OF kw this wb2] wb1
  have m: "alt_at forbidden (prev_word False pre) (w @ post) \<noteq> None" by (simp add: alt_at_def)
  have "search (alt_at forbidden) False s \<noteq> None"
  proof
    assume "search (alt_at forbidden) False s = None"
    then have "\<forall>pre t. s = pre @ t \<longrightarrow> alt_at forbidden (prev_word False pre) t = None"
      by (simp only: search_None_iff)
    with s have "alt_at forbidden (prev_word False pre) (w @ post) = None" by blast
    with m show False by simp
  qed
  then show ?thesis by (simp add: has_forbidden_def)
qed

lemma strip_Nil [simp]: "strip [] = []"
  by (simp add: strip_def lstrip_def rstrip_def)

lemma prepare_blank: "strip sql = [] \<Longrightarrow> prepare V sql = []"
  by (simp add: prepare_def strip_fence_def rstrip_semi_def adjust_schema_def split: option.splits)

lemma standalone_nonempty: "kw \<noteq> [] \<Longrightarrow> standalone kw s \<Longrightarrow> s \<noteq> []"
  by (auto simp: standalone_def)

text \<open>
  Claim C1, as amended. For every raw statement whose text, after the code fence and
  the trailing semicolons are stripped and the schema qualifier is rewritten, contains
  a forbidden keyword as a standalone word, in any letter case and anywhere in that text,
  \<^verbatim>\<open>clean_sql\<close> raises the \<^verbatim>\<open>ValueError\<close> of the DML/DDL check and returns no
  statement. The result does not depend on the tables of the statement: the check comes
  before the allowlist check.
\<close>

theorem clean_sql_forbidden:
  "kw \<in> set forbidden \<Longrightarrow> standalone kw (prepare V sql) \<Longrightarrow>
     clean_sql V sql = Inl (ValueError DML_DDL_not_allowed)"
proof -
  assume kw: "kw \<in> set forbidden" and st: "standalone kw (prepare V sql)"
  from kw have "kw \<noteq> []" by (simp add: forbidden_starts_with_letter)
  from this st have "prepare V sql \<noteq> []" by (rule standalone_nonempty)
  then have "strip sql \<noteq> []" using prepare_blank by blast
  moreover then have "sql \<noteq> []" by auto
  moreover have "has_forbidden (prepare V sql)" using kw st by (rule standalone_has_forbidden)
  ultimately show ?thesis by (simp add: clean_sql_def)
qed

theorem clean_sql_forbidden_witness:
  "''delete'' \<in> set forbidden \<and>
   prepare (Some ''APPS'') ''DELETE FROM OTHER_TABLE;'' = ''DELETE FROM OTHER_TABLE'' \<and>
   standalone ''delete'' ''DELETE FROM OTHER_TABLE'' \<and>
   clean_sql (Some ''APPS'') ''DELETE FROM OTHER_TABLE;'' = Inl (ValueError DML_DDL_not_allowed)"
proof -
  have a: "''delete'' \<in> set forbidden" by (simp add: forbidden_def)
  have b: "prepare (Some ''APPS'') ''DELETE FROM OTHER_TABLE;'' = ''DELETE FROM OTHER_TABLE''"
    by code_simp
  have "list_all2 ci_eq ''delete'' ''DELETE''" by code_simp
  moreover have "\<not> is_word (hd '' FROM OTHER_TABLE'')" by code_simp
  ultimately have c: "standalone ''delete'' ''DELETE FROM OTHER_TABLE''"
    unfolding standalone_def
    by (intro exI [of _ "[]"] exI [of _ "''DELETE''"] exI [of _ "'' FROM OTHER_TABLE''"]) simp
  from clean_sql_forbidden [OF a, of "Some ''APPS''" "''DELETE FROM OTHER_TABLE;''"] a b c
  show ?thesis by simp
qed

text \<open>
  The claim as stated is about the raw text. The first line of a fenced statement is
  removed with the fence before the scan, so a keyword there is not seen, and the
  statement is returned sanitized.
\<close>

theorem clean_sql_forbidden_counterexample:
  "standalone ''drop'' (''```drop'' @ [nl] @ ''SELECT * FROM AP_HOLDS_ALL'') \<and>
   clean_sql None (''```drop'' @ [nl] @ ''SELECT * FROM AP_HOLDS_ALL'') =
     Inr (''SELECT * FROM AP_HOLDS_ALL WHERE '' @ inject @ '' FETCH FIRST 100 ROWS ONLY'')"
proof -
  have "list_all2 ci_eq ''drop'' ''drop''" by code_simp
  moreover have "\<not> is_word (last ''```'')" "\<not> is_word (hd (nl # ''SELECT * FROM AP_HOLDS_ALL''))"
    by code_simp+
  ultimately have "standalone ''drop'' (''```drop'' @ [nl] @ ''SELECT * FROM AP_HOLDS_ALL'')"
    unfolding standalone_def
    by (intro exI [of _ "''```''"] exI [of _ "''drop''"]
        exI [of _ "nl # ''SELECT * FROM AP_HOLDS_ALL''"]) simp
  moreover have "clean_sql None (''```drop'' @ [nl] @ ''SELECT * FROM AP_HOLDS_ALL'') =
     Inr (''SELECT * FROM AP_HOLDS_ALL WHERE '' @ inject @ '' FETCH FIRST 100 ROWS ONLY'')"
    by code_simp
  ultimately show ?thesis by simp
qed

subsection \<open>The table allowlist\<close>












text \<open>
  A remark on the pattern: it reads one target after each \<^verbatim>\<open>FROM\<close> and \<^verbatim>\<open>JOIN\<close>.
  A table after a comma is not a target of the pattern and is not checked.
\<close>

lemma comma_separated_table_not_checked:
  "findall_targets False ''SELECT * FROM AP_HOLDS_ALL, OTHER_TABLE'' = [''AP_HOLDS_ALL''] \<and>
   clean_sql None ''SELECT * FROM AP_HOLDS_ALL, OTHER_TABLE'' =
     Inr (''SELECT * FROM AP_HOLDS_ALL, OTHER_TABLE WHERE '' @ inject @
          '' FETCH FIRST 100 ROWS ONLY'')"
  by code_simp

subsection \<open>The shape of the rebuilt statement\<close>

lemma rstrip_decomp: "\<exists>ws. y = rstrip y @ ws \<and> list_all is_space ws"
proof -
  have "rev y = takeWhile is_space (rev y) @ dropWhile is_space (rev y)" by simp
  then have "y = rev (dropWhile is_space (rev y)) @ rev (takeWhile is_space (rev y))"
    by (metis rev_append rev_rev_ident)
  moreover have "list_all is_space (rev (takeWhile is_space (rev y)))"
    by (simp add: list_all_iff) (meson set_takeWhileD)
  ultimately show ?thesis unfolding rstrip_def by blast
qed

lemma rstrip_last: "rstrip y \<noteq> [] \<Longrightarrow> \<not> is_space (last (rstrip y))"
proof -
  assume a: "rstrip y \<noteq> []"
  then have "dropWhile is_space (rev y) \<noteq> []" by (simp add: rstrip_def)
  then have "\<not> is_space (hd (dropWhile is_space (rev y)))" by (rule hd_dropWhile)
  then show ?thesis
    using a by (simp add: rstrip_def last_rev)
qed

lemma rstrip_hd: "rstrip y \<noteq> [] \<Longrightarrow> hd (rstrip y) = hd y"
  using rstrip_decomp [of y] by (metis hd_append2)

lemma lstrip_hd: "lstrip x \<noteq> [] \<Longrightarrow> \<not> is_space (hd (lstrip x))"
  unfolding lstrip_def by (rule hd_dropWhile)

lemma stripped_strip: "stripped (strip x)"
proof (cases "rstrip (lstrip x) = []")
  case True
  then show ?thesis by (simp add: stripped_def strip_def)
next
  case False
  then have l: "\<not> is_space (last (rstrip (lstrip x)))" by (rule rstrip_last)
  from False have h: "hd (rstrip (lstrip x)) = hd (lstrip x)" by (rule rstrip_hd)
  from False rstrip_decomp [of "lstrip x"] have "lstrip x \<noteq> []" by auto
  then have "\<not> is_space (hd (lstrip x))" by (rule lstrip_hd)
  with h l show ?thesis by (simp add: stripped_def strip_def)
qed

lemma strip_stripped: "stripped x \<Longrightarrow> strip x = x"
proof (cases "x = []")
  case True
  then show ?thesis by (simp add: strip_def lstrip_def rstrip_def)
next
  case False
  assume "stripped x"
  with False have h: "\<not> is_space (hd x)" and l: "\<not> is_space (last x)"
    by (simp_all add: stripped_def)
  from h have "lstrip x = x" by (simp add: lstrip_def dropWhile_eq_self_iff)
  moreover from l False have "dropWhile is_space (rev x) = rev x"
    by (simp add: dropWhile_eq_self_iff hd_rev)
  ultimately show ?thesis by (simp add: strip_def rstrip_def)
qed

lemma lstrip_append:
  "W \<noteq> [] \<Longrightarrow> \<not> is_space (hd W) \<Longrightarrow> lstrip (a @ W @ b) = lstrip a @ W @ b"
  by (cases W) (auto simp: lstrip_def dropWhile_append)

lemma rstrip_append:
  "W \<noteq> [] \<Longrightarrow> \<not> is_space (last W) \<Longrightarrow> rstrip (a @ W @ b) = a @ W @ rstrip b"
proof -
  assume w: "W \<noteq> []" "\<not> is_space (last W)"
  then have "rev W \<noteq> []" "\<not> is_space (hd (rev W))" by (simp_all add: hd_rev)
  then have "dropWhile is_space (rev b @ rev W @ rev a) = dropWhile is_space (rev b) @ rev W @ rev a"
    by (cases "rev W") (auto simp: dropWhile_append)
  then show ?thesis by (simp add: rstrip_def)
qed

lemma strip_append:
  "W \<noteq> [] \<Longrightarrow> \<not> is_space (hd W) \<Longrightarrow> \<not> is_space (last W) \<Longrightarrow>
     strip (a @ W @ b) = lstrip a @ W @ rstrip b"
  by (simp add: strip_def lstrip_append rstrip_append)

lemma stripped_append:
  "stripped a \<Longrightarrow> a \<noteq> [] \<Longrightarrow> stripped b \<Longrightarrow> b \<noteq> [] \<Longrightarrow> stripped (a @ m @ b)"
  by (simp add: stripped_def)


lemma where_inject_ends:
  "''WHERE '' @ inject \<noteq> []" "\<not> is_space (hd (''WHERE '' @ inject))"
  "\<not> is_space (last (''WHERE '' @ inject))"
  by (simp_all add: inject_text is_space_def)

lemma inject_where_form: "\<exists>a b. inject_where s = a @ (''WHERE '' @ inject) @ b"
proof (cases "search (keyword_at ''where'') False s")
  case None
  then have "inject_where s = (s @ '' '') @ (''WHERE '' @ inject) @ []"
    by (simp add: inject_where_def)
  then show ?thesis by blast
next
  case (Some x)
  then obtain pre g r where "x = (pre, g, r)" by (cases x) auto
  with Some have "inject_where s = pre @ (''WHERE '' @ inject) @ ('' AND'' @ r)"
    by (simp add: inject_where_def)
  then show ?thesis by blast
qed

lemma strip_inject_where:
  "\<exists>a b. strip (inject_where s) = a @ (''WHERE '' @ inject) @ b"
proof -
  from inject_where_form obtain a b where "inject_where s = a @ (''WHERE '' @ inject) @ b"
    by blast
  then have "strip (inject_where s) = lstrip a @ (''WHERE '' @ inject) @ rstrip b"
    using strip_append [OF where_inject_ends] by simp
  then show ?thesis by blast
qed

lemma strip_inject_where_not_Nil: "strip (inject_where s) \<noteq> []"
  using strip_inject_where [of s] where_inject_ends(1) by auto

lemma split_clause_stripped: "split_clause m s = (c, b) \<Longrightarrow> stripped c"
proof (cases "search m False s")
  case None
  moreover assume "split_clause m s = (c, b)"
  ultimately show ?thesis by (simp add: split_clause_def stripped_def)
next
  case (Some x)
  moreover assume "split_clause m s = (c, b)"
  ultimately have "\<exists>g. c = strip g" by (cases x) (auto simp: split_clause_def)
  then show ?thesis using stripped_strip by auto
qed

lemma stripped_default_order: "stripped default_order" "default_order \<noteq> []"
  by (simp_all add: stripped_def default_order_def is_space_def)

lemma stripped_default_fetch: "stripped default_fetch" "default_fetch \<noteq> []"
  by (simp_all add: stripped_def default_fetch_def is_space_def)

lemma stripped_fix_order: "stripped c \<Longrightarrow> stripped (fix_order c)"
  by (simp add: fix_order_def stripped_default_order)

lemma rebuild_shape:
  assumes f: "split_clause fetch_at s0 = (f, s1)" and o: "split_clause order_at s1 = (c, s2)"
  shows "rebuild s0 =
     strip (inject_where s2) @ (if fix_order c = [] then [] else '' '' @ fix_order c) @
     '' '' @ (if f = [] then default_fetch else f)"
proof -
  let ?B = "strip (inject_where s2)"
  let ?O = "fix_order c"
  let ?F = "if f = [] then default_fetch else f"
  have B: "?B \<noteq> []" "stripped ?B" by (simp_all add: strip_inject_where_not_Nil stripped_strip)
  have F: "?F \<noteq> []" "stripped ?F"
    using split_clause_stripped [OF f] by (simp_all add: stripped_default_fetch)
  have r: "rebuild s0 = strip (join_with '' '' (filter (\<lambda>p. p \<noteq> []) [?B, ?O, ?F]))"
    by (simp add: rebuild_def f o Let_def del: filter.simps)
  show ?thesis
  proof (cases "?O = []")
    case True
    have "stripped (?B @ '' '' @ ?F)" using B F by (intro stripped_append) simp_all
    then have "strip (?B @ '' '' @ ?F) = ?B @ '' '' @ ?F" by (rule strip_stripped)
    with True B F show ?thesis unfolding r by simp
  next
    case False
    have "stripped (?B @ ('' '' @ ?O @ '' '') @ ?F)" using B F by (intro stripped_append) simp_all
    then have "strip (?B @ ('' '' @ ?O @ '' '') @ ?F) = ?B @ ('' '' @ ?O @ '' '') @ ?F"
      by (rule strip_stripped)
    with False B F show ?thesis unfolding r by simp
  qed
qed

lemma clean_sql_Inr: "clean_sql V sql = Inr q \<Longrightarrow> q = rebuild (prepare V sql)"
  by (auto simp: clean_sql_def Let_def split: if_splits option.splits)

subsection \<open>The row limit clause\<close>

lemma word_not_space: "is_word c \<Longrightarrow> \<not> is_space c"
  by (auto simp: is_word_def is_space_def is_upper_def is_lower_def is_digit_def Let_def)

lemma ci_prefix_suffix_length: "ci_prefix p t = Some r \<Longrightarrow> length r \<le> length t"
  by (auto dest: ci_prefix_length)

lemma keyword2_at_Some:
  assumes "keyword2_at kw1 kw2 pw t = Some (g, r)"
  shows "\<exists>w1 ws w2. g = w1 @ ws @ w2 \<and> t = g @ r \<and> list_all2 ci_eq kw1 w1 \<and> ws \<noteq> [] \<and>
           list_all is_space ws \<and> list_all2 ci_eq kw2 w2 \<and> wb pw t \<and> wb True r"
proof -
  from assms have b: "wb pw t"
    by (auto simp: keyword2_at_def split: if_splits)
  with assms obtain r1 where r1: "ci_prefix kw1 t = Some r1"
    by (auto simp: keyword2_at_def split: option.splits if_splits)
  with assms b have ws: "takeWhile is_space r1 \<noteq> []"
    by (auto simp: keyword2_at_def split: if_splits)
  with assms b r1 obtain r2 where r2: "ci_prefix kw2 (dropWhile is_space r1) = Some r2"
    by (auto simp: keyword2_at_def split: option.splits if_splits)
  with assms b r1 ws have e: "wb True r2" "r = r2" "g = take (length t - length r2) t"
    by (auto simp: keyword2_at_def split: if_splits)
  from r1 obtain w1 where w1: "t = w1 @ r1" "list_all2 ci_eq kw1 w1"
    by (auto simp: ci_prefix_Some_iff)
  from r2 obtain w2 where w2: "dropWhile is_space r1 = w2 @ r2" "list_all2 ci_eq kw2 w2"
    by (auto simp: ci_prefix_Some_iff)
  have "r1 = takeWhile is_space r1 @ dropWhile is_space r1" by simp
  with w1 w2 have t: "t = (w1 @ takeWhile is_space r1 @ w2) @ r2" by simp
  then have "take (length t - length r2) t = w1 @ takeWhile is_space r1 @ w2"
    by (metis append_eq_conv_conj length_append add_diff_cancel_right')
  with e have g: "g = w1 @ takeWhile is_space r1 @ w2" by simp
  have "list_all is_space (takeWhile is_space r1)"
    by (simp add: list_all_iff) (meson set_takeWhileD)
  with g t e w1 w2 ws b show ?thesis by blast
qed

lemma keyword2_at_hd:
  assumes "keyword2_at kw1 kw2 pw t = Some (g, r)" and "kw1 \<noteq> []" and "is_word (hd kw1)"
  shows "g \<noteq> [] \<and> \<not> is_space (hd g)"
proof -
  from keyword2_at_Some [OF assms(1)] obtain w1 ws w2 where
    g: "g = w1 @ ws @ w2" and w1: "list_all2 ci_eq kw1 w1" by blast
  from assms(2) w1 obtain k ks c cs where "kw1 = k # ks" "w1 = c # cs" "ci_eq k c"
    by (cases kw1) (auto simp: list_all2_Cons1)
  with assms(3) have "w1 \<noteq> []" "is_word (hd w1)" by (simp_all add: ci_eq_is_word)
  with g show ?thesis by (simp add: word_not_space)
qed

lemma strip_clause:
  assumes "g \<noteq> []" and "\<not> is_space (hd g)"
  shows "strip (g @ x) \<noteq> [] \<and> (\<exists>ws. g @ x = strip (g @ x) @ ws \<and> list_all is_space ws)"
proof -
  from assms have l: "lstrip (g @ x) = g @ x"
    by (cases g) (simp_all add: lstrip_def)
  from rstrip_decomp [of "g @ x"] obtain ws where
    ws: "g @ x = rstrip (g @ x) @ ws" "list_all is_space ws" by blast
  have "rstrip (g @ x) \<noteq> []"
  proof
    assume "rstrip (g @ x) = []"
    with ws have "list_all is_space (g @ x)" by simp
    with assms show False by (cases g) simp_all
  qed
  with ws l show ?thesis by (auto simp: strip_def)
qed

lemma fetch_at_Some:
  assumes "fetch_at pw t = Some (g, r)"
  shows "t = g @ r \<and> (r = [] \<or> hd r = nl) \<and> strip g \<noteq> [] \<and>
         (\<exists>ws. g = strip g @ ws \<and> list_all is_space ws)"
proof -
  from assms obtain g0 r0 where k: "keyword2_at ''FETCH'' ''FIRST'' pw t = Some (g0, r0)"
    and g: "g = g0 @ takeWhile (\<lambda>c. c \<noteq> nl) r0" and r: "r = dropWhile (\<lambda>c. c \<noteq> nl) r0"
    by (auto simp: fetch_at_def split: option.splits)
  from keyword2_at_Some [OF k] have "t = g0 @ r0" by blast
  with g r have t: "t = g @ r" by simp
  have h: "r = [] \<or> hd r = nl"
    unfolding r using hd_dropWhile [of "\<lambda>c. c \<noteq> nl" r0] by auto
  have "g0 \<noteq> [] \<and> \<not> is_space (hd g0)"
    using k by (rule keyword2_at_hd) (simp_all add: is_word_def is_upper_def)
  with strip_clause [of g0 "takeWhile (\<lambda>c. c \<noteq> nl) r0"] g t h show ?thesis by simp
qed

text \<open>
  Claim C5, as amended. The row limit clause of a statement is what the pattern
  \<^verbatim>\<open>\bFETCH\s+FIRST\b.*\<close> finds in the prepared text: the text from the first
  \<^verbatim>\<open>FETCH FIRST\<close> to the end of its line. For every raw statement that passes
  validation: without such a clause the returned statement ends with
  \<^verbatim>\<open>FETCH FIRST 100 ROWS ONLY\<close>; with one, the returned statement ends with the clause
  as it is written up to the end of its line, character for character, without the
  white space that may follow it there. What stands on later lines is not part of the
  clause.
\<close>

theorem clean_sql_limit:
  assumes "clean_sql V sql = Inr q"
  shows "(search fetch_at False (prepare V sql) = None \<longrightarrow> suffix default_fetch q) \<and>
         (\<forall>pre g r. search fetch_at False (prepare V sql) = Some (pre, g, r) \<longrightarrow>
            prepare V sql = pre @ g @ r \<and> (r = [] \<or> hd r = nl) \<and> strip g \<noteq> [] \<and>
            (\<exists>ws. g = strip g @ ws \<and> list_all is_space ws) \<and> suffix (strip g) q)"
proof -
  let ?s = "prepare V sql"
  from assms have q: "q = rebuild ?s" by (rule clean_sql_Inr)
  obtain f s1 where f: "split_clause fetch_at ?s = (f, s1)" by (cases "split_clause fetch_at ?s")
  obtain c s2 where c: "split_clause order_at s1 = (c, s2)" by (cases "split_clause order_at s1")
  from rebuild_shape [OF f c] q
  have "\<exists>x. q = x @ (if f = [] then default_fetch else f)"
    by (metis append_assoc)
  then have suf: "suffix (if f = [] then default_fetch else f) q" by (auto simp: suffix_def)
  show ?thesis
  proof (intro conjI impI allI)
    assume "search fetch_at False ?s = None"
    with f have "f = []" by (simp add: split_clause_def)
    with suf show "suffix default_fetch q" by simp
  next
    fix pre g r assume s: "search fetch_at False ?s = Some (pre, g, r)"
    from search_Some [OF s] obtain t where t: "?s = pre @ t"
      "fetch_at (prev_word False pre) t = Some (g, r)" by blast
    note m = fetch_at_Some [OF t(2)]
    from m t show "?s = pre @ g @ r" by simp
    from m show "r = [] \<or> hd r = nl" by simp
    from m show "strip g \<noteq> []" by simp
    from m show "\<exists>ws. g = strip g @ ws \<and> list_all is_space ws" by simp
    from s f have "f = strip g" by (simp add: split_clause_def)
    with m suf show "suffix (strip g) q" by simp
  qed
qed

theorem clean_sql_limit_witness:
  "clean_sql None ''SELECT 1'' = Inr (''SELECT 1 WHERE '' @ inject @ '' FETCH FIRST 100 ROWS ONLY'') \<and>
   search fetch_at False (prepare None ''SELECT 1'') = None \<and>
   suffix default_fetch (''SELECT 1 WHERE '' @ inject @ '' FETCH FIRST 100 ROWS ONLY'') \<and>
   clean_sql None ''SELECT 1 fetch first 5 rows only;'' =
     Inr (''SELECT 1 WHERE '' @ inject @ '' fetch first 5 rows only'') \<and>
   search fetch_at False (prepare None ''SELECT 1 fetch first 5 rows only;'') =
     Some (''SELECT 1 '', ''fetch first 5 rows only'', []) \<and>
   suffix (strip ''fetch first 5 rows only'')
     (''SELECT 1 WHERE '' @ inject @ '' fetch first 5 rows only'')"
proof -
  have a: "clean_sql None ''SELECT 1'' =
      Inr (''SELECT 1 WHERE '' @ inject @ '' FETCH FIRST 100 ROWS ONLY'')"
    by code_simp
  have b: "search fetch_at False (prepare None ''SELECT 1'') = None" by code_simp
  have c: "clean_sql None ''SELECT 1 fetch first 5 rows only;'' =
     Inr (''SELECT 1 WHERE '' @ inject @ '' fetch first 5 rows only'')"
    by code_simp
  have d: "search fetch_at False (prepare None ''SELECT 1 fetch first 5 rows only;'') =
     Some (''SELECT 1 '', ''fetch first 5 rows only'', [])"
    by code_simp
  from clean_sql_limit [OF a] b
  have e: "suffix default_fetch (''SELECT 1 WHERE '' @ inject @ '' FETCH FIRST 100 ROWS ONLY'')"
    by blast
  from clean_sql_limit [OF c] d
  have f: "suffix (strip ''fetch first 5 rows only'')
     (''SELECT 1 WHERE '' @ inject @ '' fetch first 5 rows only'')"
    by blast
  from a b c d e f show ?thesis by blast
qed

text \<open>
  The claim as stated has the original limit clause preserved unchanged. The dot of the
  pattern does not match a newline: a limit clause that goes on after a line break is
  cut at the break, and the rest of the statement is dropped.
\<close>

theorem clean_sql_limit_counterexample:
  "clean_sql None (''SELECT * FROM AP_HOLDS_ALL FETCH FIRST 5'' @ [nl] @ ''ROWS ONLY'') =
     Inr (''SELECT * FROM AP_HOLDS_ALL WHERE '' @ inject @ '' FETCH FIRST 5'')"
  by code_simp

subsection \<open>The order clause\<close>

lemma lit_prefix_ci_prefix: "lit_prefix p t = Some r \<Longrightarrow> ci_prefix p t = Some r"
  by (induction p t rule: lit_prefix.induct) (auto simp: ci_eq_refl split: if_splits)

lemma order_col_at_ci: "order_col_at pw t = Some x \<Longrightarrow> order_col_ci_at pw t = Some x"
proof -
  assume a: "order_col_at pw t = Some x"
  then obtain r where r: "lit_prefix ''ORDER'' t = Some r"
    by (auto simp: order_col_at_def split: option.splits)
  with a have ws: "takeWhile is_space r \<noteq> []"
    by (auto simp: order_col_at_def split: if_splits)
  with a r obtain r2 where r2: "lit_prefix ''BY'' (dropWhile is_space r) = Some r2"
    by (auto simp: order_col_at_def split: option.splits if_splits)
  from a r ws r2 have e: "(if takeWhile is_space r2 = [] then None
                      else (case dropWhile is_space r2 of
                              [] \<Rightarrow> None
                            | c # r3 \<Rightarrow>
                                if is_ident c then Some (take (length t - length r3) t, r3)
                                else None)) = Some x"
    by (simp add: order_col_at_def)
  from r have "ci_prefix ''ORDER'' t = Some r" by (rule lit_prefix_ci_prefix)
  moreover from r2 have "ci_prefix ''BY'' (dropWhile is_space r) = Some r2"
    by (rule lit_prefix_ci_prefix)
  ultimately show ?thesis using ws e by (simp add: order_col_ci_at_def)
qed

lemma search_mono:
  assumes "\<And>pw t x. m pw t = Some x \<Longrightarrow> m' pw t \<noteq> None"
  shows "search m' pw s = None \<Longrightarrow> search m pw s = None"
proof -
  assume "search m' pw s = None"
  then have n: "\<forall>pre t. s = pre @ t \<longrightarrow> m' (prev_word pw pre) t = None"
    by (simp only: search_None_iff)
  have "\<forall>pre t. s = pre @ t \<longrightarrow> m (prev_word pw pre) t = None"
  proof (intro allI impI)
    fix pre t assume "s = pre @ t"
    with n have "m' (prev_word pw pre) t = None" by blast
    then show "m (prev_word pw pre) t = None"
    proof (cases "m (prev_word pw pre) t")
      case None
      then show ?thesis .
    next
      case (Some x)
      from assms [OF Some] \<open>m' (prev_word pw pre) t = None\<close> show ?thesis by simp
    qed
  qed
  then show ?thesis by (simp only: search_None_iff)
qed

lemma no_column_ci: "search order_col_ci_at False c = None \<Longrightarrow> search order_col_at False c = None"
  by (rule search_mono [where m' = order_col_ci_at]) (simp add: order_col_at_ci)

lemma order_at_Some:
  assumes "order_at pw t = Some (g, r)"
  shows "t = g @ r \<and> strip g \<noteq> []"
proof -
  from assms obtain g0 r0 where k: "keyword2_at ''ORDER'' ''BY'' pw t = Some (g0, r0)"
    and g: "g = g0 @ takeWhile (\<lambda>c. c \<noteq> nl \<and> c \<noteq> CHR '';'') r0"
    and r: "r = dropWhile (\<lambda>c. c \<noteq> nl \<and> c \<noteq> CHR '';'') r0"
    by (auto simp: order_at_def split: option.splits)
  from keyword2_at_Some [OF k] have "t = g0 @ r0" by blast
  with g r have t: "t = g @ r" by simp
  have "g0 \<noteq> [] \<and> \<not> is_space (hd g0)"
    using k by (rule keyword2_at_hd) (simp_all add: is_word_def is_upper_def)
  with strip_clause [of g0 "takeWhile (\<lambda>c. c \<noteq> nl \<and> c \<noteq> CHR '';'') r0"] g t show ?thesis by simp
qed

text \<open>
  Claim C6, as amended. The order clause of a statement is what the pattern
  \<^verbatim>\<open>\bORDER\s+BY\b[^\n;]*\<close> finds once the limit clause is split off. For every
  statement that passes validation: when there is no order clause, the output has none
  (the body with the predicates is followed by the limit clause); when the order clause
  has no column reference after \<^verbatim>\<open>ORDER BY\<close>, in whatever letter case the keywords are
  written, the default order clause stands in its place; when the check of the source
  finds a column reference (the keywords in upper case, white space, a column
  character), the order clause is carried into the output as written.
\<close>

theorem clean_sql_order:
  assumes "clean_sql V sql = Inr q"
    and "split_clause fetch_at (prepare V sql) = (fetch_part, s1)"
    and "split_clause order_at s1 = (order_part, body)"
    and "limit = (if fetch_part = [] then default_fetch else fetch_part)"
  shows
    "(search order_at False s1 = None \<longrightarrow>
        q = strip (inject_where body) @ '' '' @ limit) \<and>
     (\<forall>pre g r. search order_at False s1 = Some (pre, g, r) \<longrightarrow>
        order_part = strip g \<and> order_part \<noteq> [] \<and>
        (search order_col_at False order_part \<noteq> None \<longrightarrow>
           q = strip (inject_where body) @ '' '' @ order_part @ '' '' @ limit) \<and>
        (search order_col_ci_at False order_part = None \<longrightarrow>
           q = strip (inject_where body) @ '' '' @ default_order @ '' '' @ limit))"
proof -
  from assms(1) have q: "q = rebuild (prepare V sql)" by (rule clean_sql_Inr)
  note sh = rebuild_shape [OF assms(2,3)]
  show ?thesis
  proof (intro conjI impI allI)
    assume "search order_at False s1 = None"
    with assms(3) have "order_part = []" by (simp add: split_clause_def)
    then have "fix_order order_part = []" by (simp add: fix_order_def)
    with sh q assms(4) show "q = strip (inject_where body) @ '' '' @ limit" by simp
  next
    fix pre g r assume s: "search order_at False s1 = Some (pre, g, r)"
    with assms(3) show o: "order_part = strip g" by (simp add: split_clause_def)
    from search_Some [OF s] obtain t where "order_at (prev_word False pre) t = Some (g, r)"
      by blast
    from order_at_Some [OF this] o show ne: "order_part \<noteq> []" by simp
    {
      assume "search order_col_at False order_part \<noteq> None"
      then have "fix_order order_part = order_part" by (auto simp: fix_order_def)
      with sh q assms(4) ne
      show "q = strip (inject_where body) @ '' '' @ order_part @ '' '' @ limit" by simp
    }
    {
      assume "search order_col_ci_at False order_part = None"
      then have "search order_col_at False order_part = None" by (rule no_column_ci)
      with ne have "fix_order order_part = default_order" by (simp add: fix_order_def)
      with sh q assms(4) stripped_default_order(2)
      show "q = strip (inject_where body) @ '' '' @ default_order @ '' '' @ limit" by simp
    }
  qed
qed

theorem clean_sql_order_witness:
  "clean_sql None ''SELECT 1 ORDER BY HOLD_ID DESC'' =
     Inr (''SELECT 1 WHERE '' @ inject @ '' ORDER BY HOLD_ID DESC FETCH FIRST 100 ROWS ONLY'') \<and>
   search order_at False ''SELECT 1 ORDER BY HOLD_ID DESC'' =
     Some (''SELECT 1 '', ''ORDER BY HOLD_ID DESC'', []) \<and>
   clean_sql None ''SELECT 1 order by'' =
     Inr (''SELECT 1 WHERE '' @ inject @ '' '' @ default_order @ '' FETCH FIRST 100 ROWS ONLY'') \<and>
   search order_at False ''SELECT 1 order by'' = Some (''SELECT 1 '', ''order by'', []) \<and>
   search order_col_ci_at False ''order by'' = None"
proof -
  have p1: "prepare None ''SELECT 1 ORDER BY HOLD_ID DESC'' = ''SELECT 1 ORDER BY HOLD_ID DESC''"
    by code_simp
  have a1: "clean_sql None ''SELECT 1 ORDER BY HOLD_ID DESC'' =
      Inr (rebuild ''SELECT 1 ORDER BY HOLD_ID DESC'')"
    by code_simp
  have f1: "split_clause fetch_at (prepare None ''SELECT 1 ORDER BY HOLD_ID DESC'') =
      ([], ''SELECT 1 ORDER BY HOLD_ID DESC'')"
    by code_simp
  have o1: "split_clause order_at ''SELECT 1 ORDER BY HOLD_ID DESC'' =
      (''ORDER BY HOLD_ID DESC'', ''SELECT 1'')"
    by code_simp
  have s1: "search order_at False ''SELECT 1 ORDER BY HOLD_ID DESC'' =
     Some (''SELECT 1 '', ''ORDER BY HOLD_ID DESC'', [])"
    by code_simp
  have c1: "search order_col_at False ''ORDER BY HOLD_ID DESC'' \<noteq> None" by code_simp
  have b1: "strip (inject_where ''SELECT 1'') = ''SELECT 1 WHERE '' @ inject" by code_simp
  from clean_sql_order [OF a1 f1 o1 refl, THEN conjunct2, rule_format, OF s1] c1
  have r1: "rebuild ''SELECT 1 ORDER BY HOLD_ID DESC'' =
      strip (inject_where ''SELECT 1'') @ '' '' @ ''ORDER BY HOLD_ID DESC'' @ '' '' @ default_fetch"
    by simp
  have p2: "clean_sql None ''SELECT 1 order by'' = Inr (rebuild ''SELECT 1 order by'')"
    by code_simp
  have f2: "split_clause fetch_at (prepare None ''SELECT 1 order by'') = ([], ''SELECT 1 order by'')"
    by code_simp
  have o2: "split_clause order_at ''SELECT 1 order by'' = (''order by'', ''SELECT 1'')"
    by code_simp
  have s2: "search order_at False ''SELECT 1 order by'' = Some (''SELECT 1 '', ''order by'', [])"
    by code_simp
  have c2: "search order_col_ci_at False ''order by'' = None" by code_simp
  from clean_sql_order [OF p2 f2 o2 refl, THEN conjunct2, rule_format, OF s2] c2
  have r2: "rebuild ''SELECT 1 order by'' =
      strip (inject_where ''SELECT 1'') @ '' '' @ default_order @ '' '' @ default_fetch"
    by simp
  from a1 r1 p2 r2 b1 s1 s2 c2 show ?thesis by (simp add: default_fetch_def)
qed

text \<open>
  The claim as stated has the default substituted for an absent order clause, and every
  order clause with a column reference carried as written. A statement without an order
  clause gets none; and since the column check is case-sensitive, an order clause in
  lower case is replaced by the default although it names a column.
\<close>

theorem clean_sql_order_counterexample:
  "clean_sql None ''SELECT * FROM AP_HOLDS_ALL'' =
     Inr (''SELECT * FROM AP_HOLDS_ALL WHERE '' @ inject @ '' FETCH FIRST 100 ROWS ONLY'') \<and>
   clean_sql None ''SELECT * FROM AP_HOLDS_ALL order by HOLD_ID'' =
     Inr (''SELECT * FROM AP_HOLDS_ALL WHERE '' @ inject @ '' '' @ default_order @
          '' FETCH FIRST 100 ROWS ONLY'')"
  by code_simp

subsection \<open>The mandatory predicates\<close>

lemma standalone_occurs: "standalone kw s \<longleftrightarrow> (\<exists>n. occurs_at kw s n)"
  unfolding standalone_def occurs_at_def by blast









end
